theory Spec2Isabelle
  imports Main "HOL-Library.Multiset"
begin

section \<open>Data model of the asynchronous pipelines (xsqlite, xredis, xmysql)\<close>

text \<open>
  The three pipelines share one shape: a buffered Go channel \<open>jobs\<close>, a context with its
  cancel function, a wait group, a backend handle and a fixed number of worker goroutines.
  They differ in the payload of a job (query and arguments in the SQL pipelines, a command
  closure in the Redis pipeline) and in the default number of workers.  The payload is a type
  parameter \<open>'p\<close>; \<open>sql_payload\<close> is the payload of the SQL pipelines.
\<close>

record 'p job =
  payload :: 'p
  tries :: int

record 'a sql_payload =
  query :: string
  args :: "'a list"

text \<open>A buffered Go channel: the buffered elements (oldest first), the capacity given to
  \<open>make\<close>, and whether \<open>close\<close> has been called.\<close>

record 'a chan =
  buf :: "'a list"
  cap :: nat
  closed :: bool

text \<open>Unrecovered run-time panics: each one ends the process.\<close>

datatype panic = CloseOfClosedChannel | SendOnClosedChannel | NegativeWaitGroup | JobPanic

text \<open>What one call of the backend (\<open>execOnce\<close>, or \<open>j.fn(db.rdb)\<close>) does: it returns nil,
  returns an error, or panics.\<close>

datatype outcome = Succeeded | Failed | Faulted

text \<open>Program points of a worker goroutine.
  \<open>Selecting\<close>: at the \<open>select\<close> at the top of the loop of \<open>worker\<close>;
  \<open>Executing j\<close>: \<open>j\<close> received, inside \<open>execWithRetry\<close> before the backend call returns;
  \<open>Waiting j w\<close>: the call failed with \<open>tries < 5\<close>, at the \<open>select\<close> on \<open>ctx.Done\<close> and the
  timer of duration \<open>w\<close> (nanoseconds);
  \<open>Resending j\<close>: the timer case was taken and \<open>j.tries++\<close> done, at the inner \<open>select\<close>
  with the send and the \<open>default\<close>;
  \<open>Exited\<close>: returned from \<open>worker\<close> (the deferred \<open>wg.Done\<close> has run).\<close>

datatype 'p wpc = Selecting | Executing "'p job" | Waiting "'p job" int | Resending "'p job" | Exited

text \<open>Program points of a caller inside \<open>Close\<close>: before \<open>db.cancel()\<close>, before
  \<open>close(db.jobs)\<close>, before \<open>db.wg.Wait()\<close>, before the release of the backend handle, and
  returned.\<close>

datatype cpc = AtCancel | AtCloseChan | AtWait | AtRelease | Returned

text \<open>Observable actions, recorded in order.  The history is not a field of the Go struct: it
  is the trace against which temporal statements are made.\<close>

datatype 'p obs = Ran "'p job" outcome | Slept int | Requeued "'p job" | Dropped "'p job" | Released

record 'p DB =
  jobs :: "'p job chan"
  ctx_done :: bool
  wg :: nat
  workers :: "'p wpc list"
  closers :: "cpc list"
  released :: nat
  panicked :: "panic option"
  history :: "'p obs list"

section \<open>Go channel operations\<close>

datatype 'a send_res = Sent "'a chan" | SendBlocks | SendPanics

datatype 'a try_res = TrySent "'a chan" | TryDefault | TryPanics

datatype 'a recv_res = Received 'a "'a chan" | RecvClosed | RecvBlocks

text \<open>\<open>ch <- x\<close>: panics on a closed channel, completes when the buffer has room, blocks
  otherwise.\<close>

definition chan_send :: "'a chan \<Rightarrow> 'a \<Rightarrow> 'a send_res" where
  "chan_send ch x =
     (if closed ch then SendPanics
      else if length (buf ch) < cap ch then Sent (ch\<lparr>buf := buf ch @ [x]\<rparr>)
      else SendBlocks)"

text \<open>\<open>select { case ch <- x: default: }\<close>: the send case is taken when the send can proceed
  (a send on a closed channel proceeds by panicking), the default otherwise.\<close>

definition chan_try_send :: "'a chan \<Rightarrow> 'a \<Rightarrow> 'a try_res" where
  "chan_try_send ch x =
     (if closed ch then TryPanics
      else if length (buf ch) < cap ch then TrySent (ch\<lparr>buf := buf ch @ [x]\<rparr>)
      else TryDefault)"

text \<open>\<open>x, ok := <-ch\<close>: buffered elements are delivered also after \<open>close\<close>; an empty closed
  channel gives \<open>ok = false\<close>; an empty open channel blocks.\<close>

definition chan_recv :: "'a chan \<Rightarrow> 'a recv_res" where
  "chan_recv ch =
     (case buf ch of
        x # xs \<Rightarrow> Received x (ch\<lparr>buf := xs\<rparr>)
      | [] \<Rightarrow> (if closed ch then RecvClosed else RecvBlocks))"

text \<open>\<open>close(ch)\<close>: panics when the channel is closed already.\<close>

definition chan_close :: "'a chan \<Rightarrow> panic + 'a chan" where
  "chan_close ch = (if closed ch then Inl CloseOfClosedChannel else Inr (ch\<lparr>closed := True\<rparr>))"

section \<open>Open\<close>

record Config =
  Workers :: int
  QueueSize :: int

text \<open>The defaults of \<open>Open\<close>: \<open>dflt\<close> is 2 in xsqlite and xredis, 4 in xmysql.\<close>

definition norm_workers :: "int \<Rightarrow> Config \<Rightarrow> nat" where
  "norm_workers dflt cfg = (if Workers cfg \<le> 0 then nat dflt else nat (Workers cfg))"

definition norm_queue :: "Config \<Rightarrow> nat" where
  "norm_queue cfg = (if QueueSize cfg \<le> 0 then 1000 else nat (QueueSize cfg))"

text \<open>The state \<open>Open\<close> returns once the backend is connected and initialised: an empty open
  channel of capacity \<open>QueueSize\<close>, a live context, and \<open>Workers\<close> goroutines started, each after
  \<open>wg.Add(1)\<close>.\<close>

definition start :: "nat \<Rightarrow> nat \<Rightarrow> 'p DB" where
  "start w q =
     \<lparr> jobs = \<lparr> buf = [], cap = q, closed = False \<rparr>,
       ctx_done = False, wg = w, workers = replicate w Selecting, closers = [],
       released = 0, panicked = None, history = [] \<rparr>"

datatype open_error = PathRequired | BackendError

text \<open>\<open>Open\<close> of xsqlite: \<open>path_empty\<close> is \<open>cfg.DBPath == ""\<close>, \<open>backend_ok\<close> says that
  \<open>sql.Open\<close>, the pragmas and the migrations all succeeded.\<close>

definition Open :: "bool \<Rightarrow> bool \<Rightarrow> Config \<Rightarrow> open_error + 'p DB" where
  "Open path_empty backend_ok cfg =
     (if path_empty then Inl PathRequired
      else if \<not> backend_ok then Inl BackendError
      else Inr (start (norm_workers 2 cfg) (norm_queue cfg)))"

section \<open>Retry and backoff\<close>

text \<open>\<open>time.Duration(math.Pow(2, float64(j.tries))) * 100 * time.Millisecond\<close> in nanoseconds.
  \<open>math.Pow(2, n)\<close> is the exact power of two for the integers \<open>0 \<le> n < 63\<close>; for negative
  \<open>n\<close> it is a fraction below one, which the conversion to \<open>Duration\<close> truncates to 0.  The
  guard \<open>j.tries < 5\<close> keeps the product far below the range of \<open>int64\<close>, and \<open>j.tries++\<close>,
  done under the same guard, far from the wrap-around of \<open>int\<close>.\<close>

definition Millisecond :: int where
  "Millisecond = 1000000"

definition backoff_wait :: "int \<Rightarrow> int" where
  "backoff_wait n = (if n < 0 then 0 else 2 ^ nat n) * 100 * Millisecond"

text \<open>The branch of \<open>execWithRetry\<close> after the backend call returned: the next program point
  of the worker.\<close>

definition after_exec :: "'p job \<Rightarrow> outcome \<Rightarrow> 'p wpc option" where
  "after_exec j r =
     (case r of
        Succeeded \<Rightarrow> Some Selecting
      | Failed \<Rightarrow> Some (if tries j < 5 then Waiting j (backoff_wait (tries j)) else Selecting)
      | Faulted \<Rightarrow> None)"

section \<open>Steps of the goroutines\<close>

text \<open>Three updates of the state: worker \<open>i\<close> moves to a program point, an action is appended
  to the history, and the process ends by a panic.\<close>

definition set_worker :: "nat \<Rightarrow> 'p wpc \<Rightarrow> 'p DB \<Rightarrow> 'p DB" where
  "set_worker i pc db = db\<lparr>workers := (workers db)[i := pc]\<rparr>"

definition observe :: "'p obs \<Rightarrow> 'p DB \<Rightarrow> 'p DB" where
  "observe e db = db\<lparr>history := history db @ [e]\<rparr>"

definition crash :: "panic \<Rightarrow> 'p DB \<Rightarrow> 'p DB" where
  "crash e db = db\<lparr>panicked := Some e\<rparr>"

text \<open>The return of \<open>worker\<close>: the deferred \<open>wg.Done()\<close>.\<close>

definition worker_return :: "nat \<Rightarrow> 'p DB \<Rightarrow> 'p DB" where
  "worker_return i db =
     (if wg db = 0 then crash NegativeWaitGroup db
      else set_worker i Exited (db\<lparr>wg := wg db - 1\<rparr>))"

text \<open>\<open>Enqueue\<close>: builds the job with \<open>tries = 0\<close> and sends it, blocking.\<close>

definition Enqueue :: "'p \<Rightarrow> 'p DB \<Rightarrow> 'p job send_res" where
  "Enqueue p db = chan_send (jobs db) \<lparr>payload = p, tries = 0\<rparr>"

text \<open>One statement of \<open>Close\<close> by the caller \<open>c\<close>.  \<open>None\<close>: the caller is blocked (in
  \<open>wg.Wait\<close>) or is not inside \<open>Close\<close>.\<close>

definition close_step :: "nat \<Rightarrow> 'p DB \<Rightarrow> 'p DB option" where
  "close_step c db =
     (if c < length (closers db) then
        (case closers db ! c of
           AtCancel \<Rightarrow> Some (db\<lparr>ctx_done := True, closers := (closers db)[c := AtCloseChan]\<rparr>)
         | AtCloseChan \<Rightarrow>
             (case chan_close (jobs db) of
                Inl e \<Rightarrow> Some (crash e db)
              | Inr ch \<Rightarrow> Some (db\<lparr>jobs := ch, closers := (closers db)[c := AtWait]\<rparr>))
         | AtWait \<Rightarrow>
             (if wg db = 0 then Some (db\<lparr>closers := (closers db)[c := AtRelease]\<rparr>) else None)
         | AtRelease \<Rightarrow>
             Some (observe Released
                     (db\<lparr>released := released db + 1, closers := (closers db)[c := Returned]\<rparr>))
         | Returned \<Rightarrow> None)
      else None)"

datatype 'p event =
    Submit 'p
  | CallClose
  | CloseStep nat
  | ParentCancel
  | SelectDone nat
  | SelectRecv nat
  | Exec nat outcome
  | BackoffDone nat
  | TimerFire nat
  | Resend nat

text \<open>One atomic step of the whole process.  \<open>None\<close>: the step cannot be taken in this state
  (the goroutine is blocked, or is not at that program point, or the process has ended by a
  panic).

  \<open>Submit p\<close>: a producer's \<open>Enqueue\<close>.
  \<open>CallClose\<close>: a caller enters \<open>Close\<close>; \<open>CloseStep c\<close>: caller \<open>c\<close> runs its next statement.
  \<open>ParentCancel\<close>: the parent context given to \<open>Open\<close> is cancelled.
  \<open>SelectDone i\<close>, \<open>SelectRecv i\<close>: worker \<open>i\<close> takes the \<open>ctx.Done\<close> case, or the receive case,
  of the \<open>select\<close> in \<open>worker\<close>.
  \<open>Exec i r\<close>: the backend call of worker \<open>i\<close> ends with \<open>r\<close>.
  \<open>BackoffDone i\<close>, \<open>TimerFire i\<close>: worker \<open>i\<close> takes the \<open>ctx.Done\<close> case, or the timer case
  (followed by \<open>j.tries++\<close>), of the \<open>select\<close> in \<open>execWithRetry\<close>.
  \<open>Resend i\<close>: worker \<open>i\<close> runs the inner \<open>select\<close> with the send and the \<open>default\<close>.\<close>

definition step :: "'p event \<Rightarrow> 'p DB \<Rightarrow> 'p DB option" where
  "step e db =
     (if panicked db \<noteq> None then None
      else case e of
        Submit p \<Rightarrow>
          (case Enqueue p db of
             Sent ch \<Rightarrow> Some (db\<lparr>jobs := ch\<rparr>)
           | SendBlocks \<Rightarrow> None
           | SendPanics \<Rightarrow> Some (crash SendOnClosedChannel db))
      | CallClose \<Rightarrow> Some (db\<lparr>closers := closers db @ [AtCancel]\<rparr>)
      | CloseStep c \<Rightarrow> close_step c db
      | ParentCancel \<Rightarrow> Some (db\<lparr>ctx_done := True\<rparr>)
      | SelectDone i \<Rightarrow>
          (if i < length (workers db) \<and> workers db ! i = Selecting \<and> ctx_done db
           then Some (worker_return i db) else None)
      | SelectRecv i \<Rightarrow>
          (if i < length (workers db) \<and> workers db ! i = Selecting then
             (case chan_recv (jobs db) of
                Received j ch \<Rightarrow> Some (set_worker i (Executing j) (db\<lparr>jobs := ch\<rparr>))
              | RecvClosed \<Rightarrow> Some (worker_return i db)
              | RecvBlocks \<Rightarrow> None)
           else None)
      | Exec i r \<Rightarrow>
          (if i < length (workers db) then
             (case workers db ! i of
                Executing j \<Rightarrow>
                  (case after_exec j r of
                     Some pc \<Rightarrow> Some (set_worker i pc (observe (Ran j r) db))
                   | None \<Rightarrow> Some (crash JobPanic (observe (Ran j r) db)))
              | _ \<Rightarrow> None)
           else None)
      | BackoffDone i \<Rightarrow>
          (if i < length (workers db) then
             (case workers db ! i of
                Waiting j w \<Rightarrow> (if ctx_done db then Some (set_worker i Selecting db) else None)
              | _ \<Rightarrow> None)
           else None)
      | TimerFire i \<Rightarrow>
          (if i < length (workers db) then
             (case workers db ! i of
                Waiting j w \<Rightarrow>
                  Some (set_worker i (Resending (j\<lparr>tries := tries j + 1\<rparr>)) (observe (Slept w) db))
              | _ \<Rightarrow> None)
           else None)
      | Resend i \<Rightarrow>
          (if i < length (workers db) then
             (case workers db ! i of
                Resending j \<Rightarrow>
                  (case chan_try_send (jobs db) j of
                     TrySent ch \<Rightarrow> Some (set_worker i Selecting (observe (Requeued j) (db\<lparr>jobs := ch\<rparr>)))
                   | TryDefault \<Rightarrow> Some (set_worker i Selecting (observe (Dropped j) db))
                   | TryPanics \<Rightarrow> Some (crash SendOnClosedChannel db))
              | _ \<Rightarrow> None)
           else None))"

text \<open>A schedule is a list of steps; it is run from left to right and fails at the first step
  that cannot be taken.\<close>

fun run :: "'p event list \<Rightarrow> 'p DB \<Rightarrow> 'p DB option" where
  "run [] db = Some db"
| "run (e # es) db = (case step e db of None \<Rightarrow> None | Some db' \<Rightarrow> run es db')"

section \<open>Predicates on states\<close>

text \<open>A worker holds a job between receiving it and returning to the top of its loop.\<close>

fun holds_job :: "'p wpc \<Rightarrow> bool" where
  "holds_job (Executing j) = True"
| "holds_job (Waiting j w) = True"
| "holds_job (Resending j) = True"
| "holds_job Selecting = False"
| "holds_job Exited = False"

text \<open>Jobs in flight: accepted by the channel and not yet resolved, that is buffered in the
  channel or held by a worker.\<close>

definition in_flight :: "'p DB \<Rightarrow> nat" where
  "in_flight db = length (buf (jobs db)) + length (filter holds_job (workers db))"

text \<open>The pipeline has \<open>w\<close> workers and a channel of capacity \<open>q\<close> that holds at most \<open>q\<close>
  jobs.\<close>

definition shape :: "nat \<Rightarrow> nat \<Rightarrow> 'p DB \<Rightarrow> bool" where
  "shape w q db = (length (workers db) = w \<and> cap (jobs db) = q \<and> length (buf (jobs db)) \<le> q)"

text \<open>\<open>retried h j\<close>: the job \<open>j\<close> is the resubmission of an attempt recorded in \<open>h\<close>: that
  attempt failed, had the same payload and a counter smaller by one, and the backoff of that
  attempt was slept.\<close>

definition retried :: "'p obs list \<Rightarrow> 'p job \<Rightarrow> bool" where
  "retried h j = (1 \<le> tries j \<and> tries j \<le> 5
     \<and> Ran (j\<lparr>tries := tries j - 1\<rparr>) Failed \<in> set h
     \<and> Slept (backoff_wait (tries j - 1)) \<in> set h)"

text \<open>A job in the queue is a fresh submission (\<open>tries = 0\<close>) or a resubmission.\<close>

definition queued_ok :: "'p obs list \<Rightarrow> 'p job \<Rightarrow> bool" where
  "queued_ok h j = (tries j = 0 \<or> retried h j)"

text \<open>What holds of the job of a worker at each program point: in the backoff wait the job
  has failed with \<open>tries < 5\<close> and the timer is the backoff of its counter; at the
  resubmission the job is the copy of a failed attempt with the counter incremented.\<close>

fun wpc_ok :: "'p obs list \<Rightarrow> 'p wpc \<Rightarrow> bool" where
  "wpc_ok h (Executing j) = queued_ok h j"
| "wpc_ok h (Waiting j w) =
     (0 \<le> tries j \<and> tries j < 5 \<and> w = backoff_wait (tries j) \<and> Ran j Failed \<in> set h)"
| "wpc_ok h (Resending j) = retried h j"
| "wpc_ok h Selecting = True"
| "wpc_ok h Exited = True"

text \<open>Every resubmission recorded in the history is the resubmission of a failed attempt.\<close>

fun obs_ok :: "'p obs list \<Rightarrow> 'p obs \<Rightarrow> bool" where
  "obs_ok h (Requeued j) = retried h j"
| "obs_ok h _ = True"

text \<open>The invariant of the retry path: it holds of the queue, of every worker and of the
  history.\<close>

definition retry_inv :: "'p DB \<Rightarrow> bool" where
  "retry_inv db =
     ((\<forall>j \<in> set (buf (jobs db)). queued_ok (history db) j)
      \<and> (\<forall>i < length (workers db). wpc_ok (history db) (workers db ! i))
      \<and> (\<forall>e \<in> set (history db). obs_ok (history db) e))"

text \<open>The total of the backoff waits recorded in a history, in nanoseconds.\<close>

fun slept_total :: "'p obs list \<Rightarrow> int" where
  "slept_total [] = 0"
| "slept_total (Slept w # h) = w + slept_total h"
| "slept_total (_ # h) = slept_total h"

text \<open>A caller of \<open>Close\<close> that has executed \<open>close(db.jobs)\<close> without panicking.\<close>

fun past_close :: "cpc \<Rightarrow> bool" where
  "past_close AtCancel = False"
| "past_close AtCloseChan = False"
| "past_close AtWait = True"
| "past_close AtRelease = True"
| "past_close Returned = True"

text \<open>The invariant of \<open>Close\<close>: a caller past \<open>close(db.jobs)\<close> has closed the channel, and is
  the only such caller.\<close>

definition close_inv :: "'p DB \<Rightarrow> bool" where
  "close_inv db =
     (\<forall>c < length (closers db). past_close (closers db ! c) \<longrightarrow>
        closed (jobs db) \<and> (\<forall>c' < length (closers db). past_close (closers db ! c') \<longrightarrow> c' = c))"

section \<open>The concurrency package: SafeGo and WorkerPool\<close>

text \<open>A function value \<open>func()\<close> is modelled by how a call of it ends: it returns, or it panics
  with a value.\<close>

datatype 'v ending = Returns | Panics 'v

text \<open>What ends the process: a panic no deferred function has recovered, or the run-time panic
  of \<open>wg.Done()\<close> on a counter that is zero.\<close>

datatype 'v death = Unrecovered 'v | NegativeCounter

text \<open>The process: the counter of the wait group handed to \<open>SafeGo\<close>, the values logged after a
  \<open>recover\<close>, the number of calls of task functions so far, what has ended the process if
  anything, the goroutines \<open>SafeGo\<close> has started and that have not run yet (each with its
  function and whether it was given a wait group), and the jobs in \<open>pool.jobChan\<close>, oldest
  first.\<close>

record 'v proc =
  wait_count :: nat
  log_lines :: "'v list"
  calls :: nat
  dead :: "'v death option"
  pending :: "('v ending \<times> bool) list"
  jobChan :: "'v ending list"

text \<open>The call \<open>fn()\<close>: it is counted, and leaves the goroutine panicking with a value or
  not panicking.\<close>

definition call :: "'v ending \<Rightarrow> 'v proc \<Rightarrow> 'v option \<times> 'v proc" where
  "call fn s = (case fn of Returns \<Rightarrow> None | Panics v \<Rightarrow> Some v, s\<lparr>calls := calls s + 1\<rparr>)"

text \<open>\<open>recover()\<close> in a deferred function: it returns the value of the current panic, or nil,
  and stops the panic.\<close>

definition recover :: "'v option \<Rightarrow> 'v option \<times> 'v option" where
  "recover panicking = (panicking, None)"

text \<open>The deferred function of \<open>SafeGo\<close>: it logs the value of \<open>recover()\<close> when it is not nil,
  then calls \<open>wg.Done()\<close> when a wait group was given.  It returns what the goroutine is
  panicking with afterwards.\<close>

definition SafeGo_deferred :: "bool \<Rightarrow> 'v option \<Rightarrow> 'v proc \<Rightarrow> 'v death option \<times> 'v proc" where
  "SafeGo_deferred has_wg panicking s =
     (let (r, panicking') = recover panicking;
          s1 = (case r of Some v \<Rightarrow> s\<lparr>log_lines := log_lines s @ [v]\<rparr> | None \<Rightarrow> s)
      in if has_wg then
           (if wait_count s1 = 0 then (Some NegativeCounter, s1)
            else (map_option Unrecovered panicking', s1\<lparr>wait_count := wait_count s1 - 1\<rparr>))
         else (map_option Unrecovered panicking', s1))"

text \<open>The end of a goroutine: a panic still under way ends the process.\<close>

definition goroutine_exit :: "'v death option \<Rightarrow> 'v proc \<Rightarrow> 'v proc" where
  "goroutine_exit panicking s = (case panicking of None \<Rightarrow> s | Some d \<Rightarrow> s\<lparr>dead := Some d\<rparr>)"

text \<open>\<open>SafeGo(fn, wg)\<close>: \<open>wg.Add(1)\<close> when a wait group is given, then the \<open>go\<close> statement, which
  starts the goroutine and returns at once.\<close>

definition SafeGo :: "'v ending \<Rightarrow> bool \<Rightarrow> 'v proc \<Rightarrow> 'v proc" where
  "SafeGo fn has_wg s =
     (let s1 = (if has_wg then s\<lparr>wait_count := wait_count s + 1\<rparr> else s)
      in s1\<lparr>pending := pending s1 @ [(fn, has_wg)]\<rparr>)"

text \<open>The goroutine \<open>SafeGo\<close> starts, from its first statement to its end: the call \<open>fn()\<close>,
  the deferred function, the end of the goroutine.\<close>

definition SafeGo_goroutine :: "'v ending \<Rightarrow> bool \<Rightarrow> 'v proc \<Rightarrow> 'v proc" where
  "SafeGo_goroutine fn has_wg s =
     (let (panicking, s1) = call fn s;
          (panicking', s2) = SafeGo_deferred has_wg panicking s1
      in goroutine_exit panicking' s2)"

text \<open>A goroutine started by a plain \<open>go fn()\<close>, with no deferred \<open>recover\<close>.\<close>

definition plain_go :: "'v ending \<Rightarrow> 'v proc \<Rightarrow> 'v proc" where
  "plain_go fn s =
     (let (panicking, s1) = call fn s in goroutine_exit (map_option Unrecovered panicking) s1)"

text \<open>The steps of a process that runs a \<open>WorkerPool\<close>.
  \<open>Take\<close>: a worker of \<open>NewWorkerPool\<close> runs one round of its loop
  \<open>for job := range pool.jobChan { SafeGo(job, nil) }\<close>: it receives the oldest job and starts
  a goroutine for it, without waiting for that goroutine.
  \<open>Finish k\<close>: the \<open>k\<close>-th goroutine that has been started and has not run yet runs to its
  end.  The goroutines run in any order, whatever the order in which they were started.
  \<open>None\<close>: the step cannot be taken (nothing to receive, no such goroutine, or the process has
  ended).\<close>

datatype pool_event = Take | Finish nat

definition pool_step :: "pool_event \<Rightarrow> 'v proc \<Rightarrow> 'v proc option" where
  "pool_step e s =
     (if dead s \<noteq> None then None
      else case e of
        Take \<Rightarrow>
          (case jobChan s of
             [] \<Rightarrow> None
           | job # rest \<Rightarrow> Some (SafeGo job False (s\<lparr>jobChan := rest\<rparr>)))
      | Finish k \<Rightarrow>
          (if k < length (pending s) then
             (case pending s ! k of
                (fn, has_wg) \<Rightarrow>
                  Some (SafeGo_goroutine fn has_wg
                          (s\<lparr>pending := take k (pending s) @ drop (Suc k) (pending s)\<rparr>)))
           else None))"

fun pool_run :: "pool_event list \<Rightarrow> 'v proc \<Rightarrow> 'v proc option" where
  "pool_run [] s = Some s"
| "pool_run (e # es) s = (case pool_step e s of None \<Rightarrow> None | Some s' \<Rightarrow> pool_run es s')"

text \<open>The values the tasks of a list panic with.\<close>

fun panic_values :: "'v ending list \<Rightarrow> 'v list" where
  "panic_values [] = []"
| "panic_values (Returns # rest) = panic_values rest"
| "panic_values (Panics v # rest) = v # panic_values rest"

text \<open>The tasks not called yet: those of the goroutines started and not run, then those still
  in the channel.\<close>

definition tasks_left :: "'v proc \<Rightarrow> 'v ending list" where
  "tasks_left s = map fst (pending s) @ jobChan s"

text \<open>The wait group counts at least the goroutines that will call \<open>wg.Done()\<close>.\<close>

definition wg_ok :: "'v proc \<Rightarrow> bool" where
  "wg_ok s = (length (filter snd (pending s)) \<le> wait_count s)"

text \<open>What relates a state \<open>s'\<close> of the process to an earlier state \<open>s\<close>: the process has not
  ended, the wait group is in order, every task is called or still to be called, and every
  panic value is logged or still to come.\<close>

definition pool_inv :: "'v proc \<Rightarrow> 'v proc \<Rightarrow> bool" where
  "pool_inv s s' =
     (dead s' = None \<and> wg_ok s'
      \<and> calls s' + length (tasks_left s') = calls s + length (tasks_left s)
      \<and> mset (log_lines s') + mset (panic_values (tasks_left s'))
          = mset (log_lines s) + mset (panic_values (tasks_left s)))"

section \<open>Schedules used as examples\<close>

text \<open>One worker, capacity 1, one job whose every execution fails.\<close>

definition always_failing :: "nat event list" where
  "always_failing =
     [Submit 7,
      SelectRecv 0, Exec 0 Failed, TimerFire 0, Resend 0,
      SelectRecv 0, Exec 0 Failed, TimerFire 0, Resend 0,
      SelectRecv 0, Exec 0 Failed, TimerFire 0, Resend 0,
      SelectRecv 0, Exec 0 Failed, TimerFire 0, Resend 0,
      SelectRecv 0, Exec 0 Failed, TimerFire 0, Resend 0,
      SelectRecv 0, Exec 0 Failed]"

text \<open>One worker, capacity 1, one job that fails on the attempts 0, 1 and 2 and succeeds on
  attempt 3.\<close>

definition fails_thrice :: "nat event list" where
  "fails_thrice =
     [Submit 7,
      SelectRecv 0, Exec 0 Failed, TimerFire 0, Resend 0,
      SelectRecv 0, Exec 0 Failed, TimerFire 0, Resend 0,
      SelectRecv 0, Exec 0 Failed, TimerFire 0, Resend 0,
      SelectRecv 0, Exec 0 Succeeded]"

text \<open>One worker, capacity 2, three producers: the third job is accepted once the worker has
  taken the first.\<close>

definition burst :: "nat event list" where
  "burst = [Submit 1, Submit 2, SelectRecv 0, Submit 3]"

text \<open>Two workers, capacity 1000, one SQL job whose first execution fails.\<close>

definition insert_log :: "string sql_payload" where
  "insert_log = \<lparr>query = ''INSERT INTO logs(level,msg) VALUES(?,?)'', args = [''INFO'', ''hello'']\<rparr>"

definition sql_retry :: "string sql_payload event list" where
  "sql_retry = [Submit insert_log, SelectRecv 0, Exec 0 Failed, TimerFire 0, Resend 0]"

text \<open>One worker, capacity 1: one call of \<open>Close\<close> run to its return, the worker leaving by
  the \<open>ctx.Done\<close> case.\<close>

definition closed_once :: "nat event list" where
  "closed_once = [CallClose, CloseStep 0, CloseStep 0, SelectDone 0, CloseStep 0, CloseStep 0]"


text \<open>One worker, capacity 2: two jobs enqueued before the worker takes any.\<close>

definition two_accepted :: "nat event list" where
  "two_accepted = [Submit 1, Submit 2]"

text \<open>One worker, capacity 1: \<open>Close\<close> called a second time after the first call has
  returned.\<close>

definition close_twice :: "nat event list" where
  "close_twice =
     [CallClose, CloseStep 0, CloseStep 0, SelectDone 0, CloseStep 0, CloseStep 0,
      CallClose, CloseStep 1, CloseStep 1]"

text \<open>One worker, capacity 1: two callers inside \<open>Close\<close> at once, each running one statement
  in turn.\<close>

definition close_concurrently :: "nat event list" where
  "close_concurrently = [CallClose, CallClose, CloseStep 0, CloseStep 1, CloseStep 0, CloseStep 1]"

text \<open>One worker, capacity 1000: a job is enqueued, then \<open>Close\<close> runs before the worker has
  received it, and the worker takes the \<open>ctx.Done\<close> case.\<close>

definition close_before_drain :: "nat event list" where
  "close_before_drain =
     [Submit 7, CallClose, CloseStep 0, CloseStep 0, SelectDone 0, CloseStep 0, CloseStep 0]"

text \<open>Two workers, capacity 1000: the execution of the only job panics.\<close>

definition panicking_job :: "nat event list" where
  "panicking_job = [Submit 7, SelectRecv 0, Exec 0 Faulted]"


text \<open>A pool with three jobs in its channel, the last two of which panic.\<close>

definition three_tasks :: "string proc" where
  "three_tasks =
     \<lparr>wait_count = 0, log_lines = [], calls = 0, dead = None, pending = [],
      jobChan = [Returns, Panics ''boom'', Panics ''bang'']\<rparr>"

text \<open>The three jobs are received in order, and their goroutines run in the opposite
  order.\<close>

definition out_of_order :: "pool_event list" where
  "out_of_order = [Take, Take, Take, Finish 2, Finish 1, Finish 0]"

section \<open>Unfolding one step\<close>

lemma step_live: "step e db = Some db' \<Longrightarrow> panicked db = None"
  by (simp add: step_def split: if_splits)

lemma step_unfold:
  "panicked db = None \<Longrightarrow> step (Submit p) db =
     (case Enqueue p db of
        Sent ch \<Rightarrow> Some (db\<lparr>jobs := ch\<rparr>)
      | SendBlocks \<Rightarrow> None
      | SendPanics \<Rightarrow> Some (crash SendOnClosedChannel db))"
  "panicked db = None \<Longrightarrow> step CallClose db = Some (db\<lparr>closers := closers db @ [AtCancel]\<rparr>)"
  "panicked db = None \<Longrightarrow> step (CloseStep c) db = close_step c db"
  "panicked db = None \<Longrightarrow> step ParentCancel db = Some (db\<lparr>ctx_done := True\<rparr>)"
  "panicked db = None \<Longrightarrow> step (SelectDone i) db =
     (if i < length (workers db) \<and> workers db ! i = Selecting \<and> ctx_done db
      then Some (worker_return i db) else None)"
  "panicked db = None \<Longrightarrow> step (SelectRecv i) db =
     (if i < length (workers db) \<and> workers db ! i = Selecting then
        (case chan_recv (jobs db) of
           Received j ch \<Rightarrow> Some (set_worker i (Executing j) (db\<lparr>jobs := ch\<rparr>))
         | RecvClosed \<Rightarrow> Some (worker_return i db)
         | RecvBlocks \<Rightarrow> None)
      else None)"
  "panicked db = None \<Longrightarrow> i < length (workers db) \<Longrightarrow> workers db ! i = Executing j \<Longrightarrow>
     step (Exec i r) db =
       (case after_exec j r of
          Some pc \<Rightarrow> Some (set_worker i pc (observe (Ran j r) db))
        | None \<Rightarrow> Some (crash JobPanic (observe (Ran j r) db)))"
  "panicked db = None \<Longrightarrow> i < length (workers db) \<Longrightarrow> workers db ! i = Waiting j w \<Longrightarrow>
     step (BackoffDone i) db = (if ctx_done db then Some (set_worker i Selecting db) else None)"
  "panicked db = None \<Longrightarrow> i < length (workers db) \<Longrightarrow> workers db ! i = Waiting j w \<Longrightarrow>
     step (TimerFire i) db =
       Some (set_worker i (Resending (j\<lparr>tries := tries j + 1\<rparr>)) (observe (Slept w) db))"
  "panicked db = None \<Longrightarrow> i < length (workers db) \<Longrightarrow> workers db ! i = Resending j \<Longrightarrow>
     step (Resend i) db =
       (case chan_try_send (jobs db) j of
          TrySent ch \<Rightarrow> Some (set_worker i Selecting (observe (Requeued j) (db\<lparr>jobs := ch\<rparr>)))
        | TryDefault \<Rightarrow> Some (set_worker i Selecting (observe (Dropped j) db))
        | TryPanics \<Rightarrow> Some (crash SendOnClosedChannel db))"
  by (simp_all add: step_def)

section \<open>Every resubmitted job comes from a failed attempt\<close>

lemma retried_mono: "retried h j \<Longrightarrow> retried (h @ h') j"
  by (auto simp: retried_def)

lemma queued_ok_mono: "queued_ok h j \<Longrightarrow> queued_ok (h @ h') j"
  by (auto simp: queued_ok_def retried_mono)

lemma wpc_ok_mono: "wpc_ok h pc \<Longrightarrow> wpc_ok (h @ h') pc"
  by (cases pc) (auto simp: queued_ok_mono retried_mono)

lemma obs_ok_mono: "obs_ok h e \<Longrightarrow> obs_ok (h @ h') e"
  by (cases e) (auto simp: retried_mono)

lemma retry_inv_observe:
  assumes "retry_inv db" "obs_ok (history db @ [e]) e"
  shows "retry_inv (observe e db)"
  using assms by (auto simp: retry_inv_def observe_def queued_ok_mono wpc_ok_mono obs_ok_mono)

lemma retry_inv_set_worker:
  assumes "retry_inv db" "wpc_ok (history db) pc"
  shows "retry_inv (set_worker i pc db)"
proof (cases "i < length (workers db)")
  case True
  with assms show ?thesis
    by (auto simp: retry_inv_def set_worker_def nth_list_update)
next
  case False
  with assms show ?thesis
    by (simp add: retry_inv_def set_worker_def)
qed

lemma retry_inv_jobs:
  assumes "retry_inv db" "\<forall>j \<in> set (buf ch). queued_ok (history db) j"
  shows "retry_inv (db\<lparr>jobs := ch\<rparr>)"
  using assms by (simp add: retry_inv_def)

lemma retry_inv_frame:
  "retry_inv (db\<lparr>wg := n\<rparr>) = retry_inv db"
  "retry_inv (db\<lparr>ctx_done := b\<rparr>) = retry_inv db"
  "retry_inv (db\<lparr>closers := cs\<rparr>) = retry_inv db"
  "retry_inv (db\<lparr>released := k\<rparr>) = retry_inv db"
  "retry_inv (crash x db) = retry_inv db"
  by (simp_all add: retry_inv_def crash_def)

lemma retry_inv_worker_return: "retry_inv db \<Longrightarrow> retry_inv (worker_return i db)"
  by (simp add: worker_return_def retry_inv_frame retry_inv_set_worker)

lemma retry_inv_workerD:
  "retry_inv db \<Longrightarrow> i < length (workers db) \<Longrightarrow> wpc_ok (history db) (workers db ! i)"
  by (simp add: retry_inv_def)

lemma retry_inv_bufD: "retry_inv db \<Longrightarrow> j \<in> set (buf (jobs db)) \<Longrightarrow> queued_ok (history db) j"
  by (simp add: retry_inv_def)

lemma retry_inv_close_step:
  assumes "close_step c db = Some db'" "retry_inv db" shows "retry_inv db'"
proof -
  have "retry_inv (db\<lparr>jobs := (jobs db)\<lparr>closed := True\<rparr>\<rparr>)"
    using assms(2) by (simp add: retry_inv_def)
  then show ?thesis using assms
    by (auto simp: close_step_def chan_close_def retry_inv_frame retry_inv_observe
        split: if_splits cpc.splits)
qed

lemma retry_inv_Submit:
  assumes "step (Submit p) db = Some db'" "retry_inv db" shows "retry_inv db'"
proof -
  have "retry_inv (db\<lparr>jobs := (jobs db)\<lparr>buf := buf (jobs db) @ [\<lparr>payload = p, tries = 0\<rparr>]\<rparr>\<rparr>)"
    using assms(2) by (auto simp: retry_inv_def queued_ok_def)
  then show ?thesis using assms
    by (auto simp: step_def Enqueue_def chan_send_def retry_inv_frame split: if_splits)
qed

lemma retry_inv_SelectRecv:
  assumes "step (SelectRecv i) db = Some db'" "retry_inv db" shows "retry_inv db'"
proof (cases "buf (jobs db)")
  case Nil
  with assms show ?thesis
    by (auto simp: step_def chan_recv_def retry_inv_worker_return split: if_splits)
next
  case (Cons j js)
  with assms(2) have "queued_ok (history db) j" and "\<forall>x \<in> set js. queued_ok (history db) x"
    by (simp_all add: retry_inv_def)
  then have "retry_inv (set_worker i (Executing j) (db\<lparr>jobs := (jobs db)\<lparr>buf := js\<rparr>\<rparr>))"
    using assms(2) by (simp add: retry_inv_set_worker retry_inv_jobs)
  with assms Cons show ?thesis
    by (auto simp: step_def chan_recv_def split: if_splits)
qed

lemma retry_inv_Exec:
  assumes "step (Exec i r) db = Some db'" "retry_inv db" shows "retry_inv db'"
proof -
  from assms(1) obtain j where i: "i < length (workers db)" and w: "workers db ! i = Executing j"
    by (auto simp: step_def split: if_splits wpc.splits)
  from assms(1) have live: "panicked db = None" by (rule step_live)
  from retry_inv_workerD[OF assms(2) i] w have q: "queued_ok (history db) j" by simp
  have o: "retry_inv (observe (Ran j r) db)"
    using assms(2) by (simp add: retry_inv_observe)
  have h: "history (observe (Ran j r) db) = history db @ [Ran j r]"
    by (simp add: observe_def)
  show ?thesis
  proof (cases r)
    case Succeeded
    with assms i w o live show ?thesis
      by (auto simp: step_unfold after_exec_def retry_inv_set_worker)
  next
    case Failed
    have "wpc_ok (history db @ [Ran j Failed])
            (if tries j < 5 then Waiting j (backoff_wait (tries j)) else Selecting)"
      using q by (auto simp: queued_ok_def retried_def)
    with assms i w o h Failed live show ?thesis
      by (auto simp: step_unfold after_exec_def retry_inv_set_worker)
  next
    case Faulted
    with assms i w o live show ?thesis
      by (auto simp: step_unfold after_exec_def retry_inv_frame)
  qed
qed

lemma retry_inv_TimerFire:
  assumes "step (TimerFire i) db = Some db'" "retry_inv db" shows "retry_inv db'"
proof -
  from assms(1) obtain j w where i: "i < length (workers db)" and w: "workers db ! i = Waiting j w"
    by (auto simp: step_def split: if_splits wpc.splits)
  from assms(1) have live: "panicked db = None" by (rule step_live)
  from retry_inv_workerD[OF assms(2) i] w
  have q: "0 \<le> tries j" "tries j < 5" "w = backoff_wait (tries j)" "Ran j Failed \<in> set (history db)"
    by simp_all
  have o: "retry_inv (observe (Slept w) db)"
    using assms(2) by (simp add: retry_inv_observe)
  have "wpc_ok (history (observe (Slept w) db)) (Resending (j\<lparr>tries := tries j + 1\<rparr>))"
    using q by (simp add: observe_def retried_def)
  with assms i w o live show ?thesis
    by (auto simp: step_unfold retry_inv_set_worker)
qed

lemma retry_inv_Resend:
  assumes "step (Resend i) db = Some db'" "retry_inv db" shows "retry_inv db'"
proof -
  from assms(1) obtain j where i: "i < length (workers db)" and w: "workers db ! i = Resending j"
    by (auto simp: step_def split: if_splits wpc.splits)
  from assms(1) have live: "panicked db = None" by (rule step_live)
  from retry_inv_workerD[OF assms(2) i] w have q: "retried (history db) j" by simp
  have d: "retry_inv (observe (Dropped j) db)"
    using assms(2) by (simp add: retry_inv_observe)
  have "retry_inv (db\<lparr>jobs := (jobs db)\<lparr>buf := buf (jobs db) @ [j]\<rparr>\<rparr>)"
    using assms(2) q by (auto simp: retry_inv_def queued_ok_def)
  then have s: "retry_inv (observe (Requeued j) (db\<lparr>jobs := (jobs db)\<lparr>buf := buf (jobs db) @ [j]\<rparr>\<rparr>))"
    using q by (simp add: retry_inv_observe retried_mono)
  from assms i w d s live show ?thesis
    by (auto simp: step_unfold chan_try_send_def retry_inv_set_worker retry_inv_frame split: if_splits)
qed

lemma retry_inv_BackoffDone: "step (BackoffDone i) db = Some db' \<Longrightarrow> retry_inv db \<Longrightarrow> retry_inv db'"
  by (auto simp: step_def retry_inv_set_worker split: if_splits wpc.splits)

lemma retry_inv_SelectDone: "step (SelectDone i) db = Some db' \<Longrightarrow> retry_inv db \<Longrightarrow> retry_inv db'"
  by (auto simp: step_def retry_inv_worker_return split: if_splits)

lemma retry_inv_other:
  "step CallClose db = Some db' \<Longrightarrow> retry_inv db \<Longrightarrow> retry_inv db'"
  "step ParentCancel db = Some db' \<Longrightarrow> retry_inv db \<Longrightarrow> retry_inv db'"
  "step (CloseStep c) db = Some db' \<Longrightarrow> retry_inv db \<Longrightarrow> retry_inv db'"
  by (auto simp: step_def retry_inv_frame retry_inv_close_step split: if_splits)

lemma step_retry_inv: "step e db = Some db' \<Longrightarrow> retry_inv db \<Longrightarrow> retry_inv db'"
  by (cases e) (blast intro: retry_inv_Submit retry_inv_other retry_inv_SelectDone retry_inv_SelectRecv
      retry_inv_Exec retry_inv_BackoffDone retry_inv_TimerFire retry_inv_Resend)+

lemma run_retry_inv: "run es db = Some db' \<Longrightarrow> retry_inv db \<Longrightarrow> retry_inv db'"
  by (induction es arbitrary: db) (auto split: option.splits dest: step_retry_inv)

lemma retry_inv_start: "retry_inv (start w q)"
  by (simp add: retry_inv_def start_def)

section \<open>Evaluating schedules\<close>

lemmas step_defs = step_def Enqueue_def close_step_def chan_send_def chan_try_send_def chan_recv_def
  chan_close_def worker_return_def set_worker_def observe_def crash_def after_exec_def

lemma always_failing_run:
  "run always_failing (start 1 1) = Some
     \<lparr>jobs = \<lparr>buf = [], cap = 1, closed = False\<rparr>, ctx_done = False, wg = 1,
      workers = [Selecting], closers = [], released = 0, panicked = None,
      history =
        [Ran \<lparr>payload = 7, tries = 0\<rparr> Failed, Slept 100000000, Requeued \<lparr>payload = 7, tries = 1\<rparr>,
         Ran \<lparr>payload = 7, tries = 1\<rparr> Failed, Slept 200000000, Requeued \<lparr>payload = 7, tries = 2\<rparr>,
         Ran \<lparr>payload = 7, tries = 2\<rparr> Failed, Slept 400000000, Requeued \<lparr>payload = 7, tries = 3\<rparr>,
         Ran \<lparr>payload = 7, tries = 3\<rparr> Failed, Slept 800000000, Requeued \<lparr>payload = 7, tries = 4\<rparr>,
         Ran \<lparr>payload = 7, tries = 4\<rparr> Failed, Slept 1600000000, Requeued \<lparr>payload = 7, tries = 5\<rparr>,
         Ran \<lparr>payload = 7, tries = 5\<rparr> Failed]\<rparr>"
  by (simp add: always_failing_def step_defs start_def backoff_wait_def Millisecond_def)

section \<open>The retry counter\<close>

text \<open>
  Claim C5.  In every state the pipeline can reach, each resubmitted job is the copy of a failed
  attempt with the counter \<open>tries\<close> larger by exactly one, and its counter is at most 5.  A
  worker whose job fails with \<open>tries \<ge> 5\<close> returns to the top of its loop without
  resubmitting: the job is discarded.  A worker in the backoff wait holds a job with
  \<open>tries < 5\<close>, and taking the timer case increments the counter by one.
\<close>

theorem retry_counter:
  assumes "run es (start w q) = Some db"
  shows "(\<forall>j. Requeued j \<in> set (history db) \<longrightarrow>
            tries j \<le> 5 \<and> Ran (j\<lparr>tries := tries j - 1\<rparr>) Failed \<in> set (history db))
       \<and> (\<forall>i j. i < length (workers db) \<and> workers db ! i = Executing j \<and> panicked db = None
              \<and> 5 \<le> tries j \<longrightarrow>
            step (Exec i Failed) db = Some (set_worker i Selecting (observe (Ran j Failed) db)))
       \<and> (\<forall>i j d. i < length (workers db) \<and> workers db ! i = Waiting j d \<and> panicked db = None \<longrightarrow>
            tries j < 5 \<and>
            step (TimerFire i) db =
              Some (set_worker i (Resending (j\<lparr>tries := tries j + 1\<rparr>)) (observe (Slept d) db)))"
proof -
  have inv: "retry_inv db"
    using assms retry_inv_start by (rule run_retry_inv)
  have a: "\<forall>j. Requeued j \<in> set (history db) \<longrightarrow>
            tries j \<le> 5 \<and> Ran (j\<lparr>tries := tries j - 1\<rparr>) Failed \<in> set (history db)"
  proof (intro allI impI)
    fix j assume "Requeued j \<in> set (history db)"
    with inv have "obs_ok (history db) (Requeued j)" by (auto simp: retry_inv_def)
    then show "tries j \<le> 5 \<and> Ran (j\<lparr>tries := tries j - 1\<rparr>) Failed \<in> set (history db)"
      by (simp add: retried_def)
  qed
  have b: "\<forall>i j. i < length (workers db) \<and> workers db ! i = Executing j \<and> panicked db = None
              \<and> 5 \<le> tries j \<longrightarrow>
            step (Exec i Failed) db = Some (set_worker i Selecting (observe (Ran j Failed) db))"
    by (simp add: step_unfold after_exec_def)
  have c: "\<forall>i j d. i < length (workers db) \<and> workers db ! i = Waiting j d \<and> panicked db = None \<longrightarrow>
            tries j < 5 \<and>
            step (TimerFire i) db =
              Some (set_worker i (Resending (j\<lparr>tries := tries j + 1\<rparr>)) (observe (Slept d) db))"
  proof (intro allI impI)
    fix i j d
    assume h: "i < length (workers db) \<and> workers db ! i = Waiting j d \<and> panicked db = None"
    with retry_inv_workerD[OF inv, of i] have "tries j < 5" by simp
    with h show "tries j < 5 \<and>
            step (TimerFire i) db =
              Some (set_worker i (Resending (j\<lparr>tries := tries j + 1\<rparr>)) (observe (Slept d) db))"
      by (simp add: step_unfold)
  qed
  from a b c show ?thesis by blast
qed

text \<open>A job that fails on every attempt is executed six times (\<open>tries\<close> 0 to 5), resubmitted
  five times, and then gone from the queue and from the worker.\<close>

theorem retry_counter_witness:
  "\<exists>db. run always_failing (start 1 1) = Some db
     \<and> buf (jobs db) = [] \<and> workers db = [Selecting]
     \<and> length (filter (\<lambda>e. case e of Ran j r \<Rightarrow> True | _ \<Rightarrow> False) (history db)) = 6
     \<and> map tries (concat (map (\<lambda>e. case e of Requeued j \<Rightarrow> [j] | _ \<Rightarrow> []) (history db))) = [1, 2, 3, 4, 5]
     \<and> (\<forall>j. Requeued j \<in> set (history db) \<longrightarrow>
            tries j \<le> 5 \<and> Ran (j\<lparr>tries := tries j - 1\<rparr>) Failed \<in> set (history db))"
proof -
  define db where "db = the (run always_failing (start 1 1))"
  have r: "run always_failing (start 1 1) = Some db"
    unfolding db_def by (simp only: always_failing_run option.sel)
  have f: "buf (jobs db) = [] \<and> workers db = [Selecting]
     \<and> length (filter (\<lambda>e. case e of Ran j r \<Rightarrow> True | _ \<Rightarrow> False) (history db)) = 6
     \<and> map tries (concat (map (\<lambda>e. case e of Requeued j \<Rightarrow> [j] | _ \<Rightarrow> []) (history db))) = [1, 2, 3, 4, 5]"
    unfolding db_def by (simp only: always_failing_run option.sel) simp
  show ?thesis
    by (rule exI [where x = db]) (use retry_counter [OF r] r f in simp)
qed

section \<open>The backoff delay\<close>

lemma fails_thrice_run:
  "run fails_thrice (start 1 1) = Some
     \<lparr>jobs = \<lparr>buf = [], cap = 1, closed = False\<rparr>, ctx_done = False, wg = 1,
      workers = [Selecting], closers = [], released = 0, panicked = None,
      history =
        [Ran \<lparr>payload = 7, tries = 0\<rparr> Failed, Slept 100000000, Requeued \<lparr>payload = 7, tries = 1\<rparr>,
         Ran \<lparr>payload = 7, tries = 1\<rparr> Failed, Slept 200000000, Requeued \<lparr>payload = 7, tries = 2\<rparr>,
         Ran \<lparr>payload = 7, tries = 2\<rparr> Failed, Slept 400000000, Requeued \<lparr>payload = 7, tries = 3\<rparr>,
         Ran \<lparr>payload = 7, tries = 3\<rparr> Succeeded]\<rparr>"
  by (simp add: fails_thrice_def step_defs start_def backoff_wait_def Millisecond_def)

lemma backoff_wait_pow: "0 \<le> n \<Longrightarrow> backoff_wait n = 100 * Millisecond * 2 ^ nat n"
  by (simp add: backoff_wait_def)

lemma queued_ok_nonneg: "queued_ok h j \<Longrightarrow> 0 \<le> tries j"
  by (auto simp: queued_ok_def retried_def)

text \<open>
  Claim C6.  In every state the pipeline can reach, a failed attempt with counter \<open>n < 5\<close>
  starts a timer of \<open>100ms * 2^n\<close>; a worker in the backoff wait holds exactly that timer; and
  every resubmitted job was preceded by the sleep of \<open>100ms * 2^n\<close> for the counter \<open>n\<close> of
  the failed attempt.  The first delay is 100ms, and the delays of the attempts 0, 1 and 2 add
  up to 700ms.
\<close>

theorem backoff_delay:
  assumes "run es (start w q) = Some db"
  shows "(\<forall>i j. i < length (workers db) \<and> workers db ! i = Executing j \<and> panicked db = None
              \<and> tries j < 5 \<longrightarrow>
            step (Exec i Failed) db =
              Some (set_worker i (Waiting j (100 * Millisecond * 2 ^ nat (tries j)))
                      (observe (Ran j Failed) db)))
       \<and> (\<forall>i j d. i < length (workers db) \<and> workers db ! i = Waiting j d \<longrightarrow>
            0 \<le> tries j \<and> d = 100 * Millisecond * 2 ^ nat (tries j))
       \<and> (\<forall>j. Requeued j \<in> set (history db) \<longrightarrow>
            Slept (100 * Millisecond * 2 ^ nat (tries j - 1)) \<in> set (history db))
       \<and> backoff_wait 0 = 100 * Millisecond
       \<and> backoff_wait 0 + backoff_wait 1 + backoff_wait 2 = 700 * Millisecond"
proof -
  have inv: "retry_inv db"
    using assms retry_inv_start by (rule run_retry_inv)
  have a: "\<forall>i j. i < length (workers db) \<and> workers db ! i = Executing j \<and> panicked db = None
              \<and> tries j < 5 \<longrightarrow>
            step (Exec i Failed) db =
              Some (set_worker i (Waiting j (100 * Millisecond * 2 ^ nat (tries j)))
                      (observe (Ran j Failed) db))"
  proof (intro allI impI)
    fix i j
    assume h: "i < length (workers db) \<and> workers db ! i = Executing j \<and> panicked db = None
              \<and> tries j < 5"
    with retry_inv_workerD[OF inv, of i] have "0 \<le> tries j"
      by (simp add: queued_ok_nonneg)
    with h show "step (Exec i Failed) db =
              Some (set_worker i (Waiting j (100 * Millisecond * 2 ^ nat (tries j)))
                      (observe (Ran j Failed) db))"
      by (simp add: step_unfold after_exec_def backoff_wait_pow)
  qed
  have b: "\<forall>i j d. i < length (workers db) \<and> workers db ! i = Waiting j d \<longrightarrow>
            0 \<le> tries j \<and> d = 100 * Millisecond * 2 ^ nat (tries j)"
  proof (intro allI impI)
    fix i j d
    assume h: "i < length (workers db) \<and> workers db ! i = Waiting j d"
    with retry_inv_workerD[OF inv, of i]
    show "0 \<le> tries j \<and> d = 100 * Millisecond * 2 ^ nat (tries j)"
      by (simp add: backoff_wait_pow)
  qed
  have c: "\<forall>j. Requeued j \<in> set (history db) \<longrightarrow>
            Slept (100 * Millisecond * 2 ^ nat (tries j - 1)) \<in> set (history db)"
  proof (intro allI impI)
    fix j assume "Requeued j \<in> set (history db)"
    with inv have "obs_ok (history db) (Requeued j)" by (auto simp: retry_inv_def)
    then show "Slept (100 * Millisecond * 2 ^ nat (tries j - 1)) \<in> set (history db)"
      by (auto simp: retried_def backoff_wait_pow)
  qed
  have d: "backoff_wait 0 = 100 * Millisecond
       \<and> backoff_wait 0 + backoff_wait 1 + backoff_wait 2 = 700 * Millisecond"
    by (simp add: backoff_wait_def)
  from a b c d show ?thesis by blast
qed

text \<open>A job failing on the attempts 0, 1 and 2 has slept 700ms in total when attempt 3
  runs.\<close>

theorem backoff_delay_witness:
  "\<exists>db. run fails_thrice (start 1 1) = Some db
     \<and> slept_total (history db) = 700 * Millisecond
     \<and> last (history db) = Ran \<lparr>payload = 7, tries = 3\<rparr> Succeeded
     \<and> Slept (100 * Millisecond * 2 ^ nat 0) \<in> set (history db)
     \<and> Slept (100 * Millisecond * 2 ^ nat 1) \<in> set (history db)
     \<and> Slept (100 * Millisecond * 2 ^ nat 2) \<in> set (history db)"
proof -
  define db where "db = the (run fails_thrice (start 1 1))"
  have r: "run fails_thrice (start 1 1) = Some db"
    unfolding db_def by (simp only: fails_thrice_run option.sel)
  have f: "slept_total (history db) = 700 * Millisecond
     \<and> last (history db) = Ran \<lparr>payload = 7, tries = 3\<rparr> Succeeded
     \<and> Requeued \<lparr>payload = 7, tries = 1\<rparr> \<in> set (history db)
     \<and> Requeued \<lparr>payload = 7, tries = 2\<rparr> \<in> set (history db)
     \<and> Requeued \<lparr>payload = 7, tries = 3\<rparr> \<in> set (history db)"
    unfolding db_def by (simp only: fails_thrice_run option.sel) (simp add: Millisecond_def)
  show ?thesis
    by (rule exI [where x = db]) (use backoff_delay [OF r] r f in force)
qed

section \<open>Jobs in flight\<close>

lemma step_shape: "step e db = Some db' \<Longrightarrow> shape w q db \<Longrightarrow> shape w q db'"
  by (cases e) (auto simp: step_defs shape_def
      split: if_splits list.splits wpc.splits cpc.splits outcome.splits)

lemma run_shape: "run es db = Some db' \<Longrightarrow> shape w q db \<Longrightarrow> shape w q db'"
  by (induction es arbitrary: db) (auto split: option.splits dest: step_shape)

lemma shape_start: "shape w q (start w q)"
  by (simp add: shape_def start_def)

lemma burst_run:
  "run burst (start 1 2) = Some
     \<lparr>jobs = \<lparr>buf = [\<lparr>payload = 2, tries = 0\<rparr>, \<lparr>payload = 3, tries = 0\<rparr>], cap = 2, closed = False\<rparr>,
      ctx_done = False, wg = 1, workers = [Executing \<lparr>payload = 1, tries = 0\<rparr>], closers = [],
      released = 0, panicked = None, history = []\<rparr>"
  by (simp add: burst_def step_defs start_def)

text \<open>
  Claim C8.  From the state \<open>Open\<close> returns, whatever the schedule, the jobs in flight (buffered
  in the channel or held by a worker) never exceed the capacity of the channel plus the number
  of workers: the buffer never holds more than its capacity, and each worker holds at most one
  job.  Capacity and number of workers are those of the configuration after the defaults of
  \<open>Open\<close>.
\<close>

theorem in_flight_bound:
  assumes "Open False True cfg = Inr db0" "run es db0 = Some db"
  shows "in_flight db \<le> norm_queue cfg + norm_workers 2 cfg
       \<and> length (buf (jobs db)) \<le> norm_queue cfg
       \<and> length (filter holds_job (workers db)) \<le> norm_workers 2 cfg"
proof -
  from assms(1) have "db0 = start (norm_workers 2 cfg) (norm_queue cfg)"
    by (simp add: Open_def)
  with assms(2) have s: "shape (norm_workers 2 cfg) (norm_queue cfg) db"
    using run_shape shape_start by blast
  have "length (filter holds_job (workers db)) \<le> length (workers db)"
    by (rule length_filter_le)
  with s show ?thesis
    by (simp add: shape_def in_flight_def)
qed

theorem in_flight_bound_witness:
  "\<exists>db. Open False True \<lparr>Workers = 1, QueueSize = 2\<rparr> = Inr (start 1 2 :: nat DB)
     \<and> run burst (start 1 2) = Some db
     \<and> in_flight db = 3
     \<and> in_flight db \<le> norm_queue \<lparr>Workers = 1, QueueSize = 2\<rparr> + norm_workers 2 \<lparr>Workers = 1, QueueSize = 2\<rparr>"
proof -
  define db where "db = the (run burst (start 1 2))"
  have r: "run burst (start 1 2) = Some db"
    unfolding db_def by (simp only: burst_run option.sel)
  have o: "Open False True \<lparr>Workers = 1, QueueSize = 2\<rparr> = Inr (start 1 2 :: nat DB)"
    by (simp add: Open_def norm_workers_def norm_queue_def)
  have f: "in_flight db = 3"
    unfolding db_def by (simp only: burst_run option.sel) (simp add: in_flight_def)
  show ?thesis
    by (rule exI [where x = db]) (use in_flight_bound [OF o r] o r f in simp)
qed

section \<open>The payload of a resubmitted job\<close>

lemma sql_retry_run:
  "run sql_retry (start 2 1000) = Some
     \<lparr>jobs = \<lparr>buf = [\<lparr>payload = insert_log, tries = 1\<rparr>], cap = 1000, closed = False\<rparr>,
      ctx_done = False, wg = 2, workers = [Selecting, Selecting], closers = [], released = 0,
      panicked = None,
      history =
        [Ran \<lparr>payload = insert_log, tries = 0\<rparr> Failed, Slept 100000000,
         Requeued \<lparr>payload = insert_log, tries = 1\<rparr>]\<rparr>"
  by (simp add: sql_retry_def step_defs start_def backoff_wait_def Millisecond_def numeral_2_eq_2)

text \<open>
  Claim C10.  In every state the pipeline can reach, each resubmitted job equals a failed
  attempt except for the counter \<open>tries\<close>, which is larger by one: the payload (query and
  arguments in the SQL pipelines, the command closure in the Redis pipeline) is the one of
  the original submission.  The two steps that build and send the resubmission copy the job
  and change \<open>tries\<close> only.
\<close>

theorem resubmission_keeps_payload:
  assumes "run es (start w q) = Some db"
  shows "(\<forall>j'. Requeued j' \<in> set (history db) \<longrightarrow>
            (\<exists>j. Ran j Failed \<in> set (history db) \<and> payload j' = payload j
                 \<and> j' = j\<lparr>tries := tries j + 1\<rparr>))
       \<and> (\<forall>i j d. i < length (workers db) \<and> workers db ! i = Waiting j d \<and> panicked db = None \<longrightarrow>
            step (TimerFire i) db =
              Some (set_worker i (Resending (j\<lparr>tries := tries j + 1\<rparr>)) (observe (Slept d) db)))
       \<and> (\<forall>i j. i < length (workers db) \<and> workers db ! i = Resending j \<and> panicked db = None
              \<and> \<not> closed (jobs db) \<and> length (buf (jobs db)) < cap (jobs db) \<longrightarrow>
            step (Resend i) db =
              Some (set_worker i Selecting (observe (Requeued j)
                      (db\<lparr>jobs := (jobs db)\<lparr>buf := buf (jobs db) @ [j]\<rparr>\<rparr>))))"
proof -
  have inv: "retry_inv db"
    using assms retry_inv_start by (rule run_retry_inv)
  have a: "\<forall>j'. Requeued j' \<in> set (history db) \<longrightarrow>
            (\<exists>j. Ran j Failed \<in> set (history db) \<and> payload j' = payload j
                 \<and> j' = j\<lparr>tries := tries j + 1\<rparr>)"
  proof (intro allI impI)
    fix j' assume "Requeued j' \<in> set (history db)"
    with inv have "obs_ok (history db) (Requeued j')" by (auto simp: retry_inv_def)
    then have "Ran (j'\<lparr>tries := tries j' - 1\<rparr>) Failed \<in> set (history db)"
      by (simp add: retried_def)
    then show "\<exists>j. Ran j Failed \<in> set (history db) \<and> payload j' = payload j
                 \<and> j' = j\<lparr>tries := tries j + 1\<rparr>"
      by (intro exI [where x = "j'\<lparr>tries := tries j' - 1\<rparr>"]) simp
  qed
  have b: "\<forall>i j d. i < length (workers db) \<and> workers db ! i = Waiting j d \<and> panicked db = None \<longrightarrow>
            step (TimerFire i) db =
              Some (set_worker i (Resending (j\<lparr>tries := tries j + 1\<rparr>)) (observe (Slept d) db))"
    by (simp add: step_unfold)
  have c: "\<forall>i j. i < length (workers db) \<and> workers db ! i = Resending j \<and> panicked db = None
              \<and> \<not> closed (jobs db) \<and> length (buf (jobs db)) < cap (jobs db) \<longrightarrow>
            step (Resend i) db =
              Some (set_worker i Selecting (observe (Requeued j)
                      (db\<lparr>jobs := (jobs db)\<lparr>buf := buf (jobs db) @ [j]\<rparr>\<rparr>)))"
    by (simp add: step_unfold chan_try_send_def)
  from a b c show ?thesis by blast
qed


text \<open>The SQL job resubmitted after one failure carries the query and the arguments of the
  failed attempt.\<close>

theorem resubmission_keeps_payload_witness:
  "\<exists>db j. run sql_retry (start 2 1000) = Some db
     \<and> buf (jobs db) = [\<lparr>payload = insert_log, tries = 1\<rparr>]
     \<and> Ran j Failed \<in> set (history db)
     \<and> tries j = 0
     \<and> query (payload j) = ''INSERT INTO logs(level,msg) VALUES(?,?)''
     \<and> args (payload j) = [''INFO'', ''hello'']"
proof -
  define db where "db = the (run sql_retry (start 2 1000))"
  have r: "run sql_retry (start 2 1000) = Some db"
    unfolding db_def by (simp only: sql_retry_run option.sel)
  have f: "buf (jobs db) = [\<lparr>payload = insert_log, tries = 1\<rparr>]"
    unfolding db_def by (simp only: sql_retry_run option.sel) simp
  have q: "Requeued \<lparr>payload = insert_log, tries = 1\<rparr> \<in> set (history db)"
    unfolding db_def by (simp only: sql_retry_run option.sel) simp
  from resubmission_keeps_payload [OF r] q
  have "\<exists>j. Ran j Failed \<in> set (history db) \<and> payload \<lparr>payload = insert_log, tries = 1\<rparr> = payload j
          \<and> \<lparr>payload = insert_log, tries = 1\<rparr> = j\<lparr>tries := tries j + 1\<rparr>"
    by (elim conjE allE [where x = "\<lparr>payload = insert_log, tries = 1\<rparr>"]) (erule (1) impE)
  then obtain j where j: "Ran j Failed \<in> set (history db)" "payload j = insert_log"
    "\<lparr>payload = insert_log, tries = 1::int\<rparr> = j\<lparr>tries := tries j + 1\<rparr>"
    by auto
  from j(3) have "tries (\<lparr>payload = insert_log, tries = 1::int\<rparr>) = tries (j\<lparr>tries := tries j + 1\<rparr>)"
    by (rule arg_cong)
  then have t: "tries j = 0" by simp
  have p: "query (payload j) = ''INSERT INTO logs(level,msg) VALUES(?,?)''
      \<and> args (payload j) = [''INFO'', ''hello'']"
    unfolding j(2) by (simp add: insert_log_def)
  from r f j(1) t p show ?thesis by (intro exI [where x = db] exI [where x = j] conjI) (rule TrueI | assumption | erule conjunct1 | erule conjunct2)+
qed

section \<open>Close and the channel\<close>

lemma closed_once_run:
  "run closed_once (start 1 1) = Some
     \<lparr>jobs = \<lparr>buf = [], cap = 1, closed = True\<rparr>, ctx_done = True, wg = 0,
      workers = [Exited], closers = [Returned], released = 1, panicked = None,
      history = [Released]\<rparr>"
  by (simp add: closed_once_def step_defs start_def)

lemma step_frame:
  assumes "step e db = Some db'" "e \<noteq> CallClose" "\<forall>c. e \<noteq> CloseStep c"
  shows "closers db' = closers db \<and> closed (jobs db') = closed (jobs db)"
  using assms
  by (cases e) (auto simp: step_defs split: if_splits list.splits wpc.splits outcome.splits)

lemma close_inv_frame:
  "closers db' = closers db \<Longrightarrow> closed (jobs db') = closed (jobs db) \<Longrightarrow> close_inv db \<Longrightarrow> close_inv db'"
  by (simp add: close_inv_def)

lemma close_inv_CallClose:
  assumes "close_inv db" shows "close_inv (db\<lparr>closers := closers db @ [AtCancel]\<rparr>)"
  unfolding close_inv_def
proof (intro allI impI)
  fix c
  assume c: "c < length (closers (db\<lparr>closers := closers db @ [AtCancel]\<rparr>))"
    and p: "past_close (closers (db\<lparr>closers := closers db @ [AtCancel]\<rparr>) ! c)"
  have c': "c < length (closers db)"
    using c p by (cases "c < length (closers db)") (auto simp: nth_append less_Suc_eq)
  with p have pc: "past_close (closers db ! c)" by (simp add: nth_append)
  from assms c' pc have cl: "closed (jobs db)"
    and un: "\<forall>c' < length (closers db). past_close (closers db ! c') \<longrightarrow> c' = c"
    by (auto simp: close_inv_def)
  show "closed (jobs (db\<lparr>closers := closers db @ [AtCancel]\<rparr>)) \<and>
        (\<forall>c'<length (closers (db\<lparr>closers := closers db @ [AtCancel]\<rparr>)).
            past_close (closers (db\<lparr>closers := closers db @ [AtCancel]\<rparr>) ! c') \<longrightarrow> c' = c)"
    using cl un by (auto simp: nth_append less_Suc_eq)
qed

lemma close_inv_update_same:
  assumes "close_inv db" "c < length (closers db)" "past_close pc = past_close (closers db ! c)"
  shows "close_inv (db\<lparr>closers := (closers db)[c := pc]\<rparr>)"
  using assms unfolding close_inv_def
  by (simp add: nth_list_update)

lemma close_inv_closeD:
  "close_inv db \<Longrightarrow> c < length (closers db) \<Longrightarrow> past_close (closers db ! c) \<Longrightarrow> closed (jobs db)"
  by (simp add: close_inv_def)

lemma close_inv_first:
  assumes "close_inv db" "c < length (closers db)" "\<not> closed (jobs db)"
  shows "close_inv (db\<lparr>jobs := (jobs db)\<lparr>closed := True\<rparr>, closers := (closers db)[c := AtWait]\<rparr>)"
proof -
  have none: "\<forall>c' < length (closers db). \<not> past_close (closers db ! c')"
    using assms(1,3) close_inv_closeD by blast
  then show ?thesis
    using assms(2) by (auto simp: close_inv_def nth_list_update)
qed

lemma close_inv_close_step:
  assumes "close_step c db = Some db'" "close_inv db" shows "close_inv db'"
proof -
  from assms(1) have c: "c < length (closers db)"
    by (simp add: close_step_def split: if_splits)
  show ?thesis
  proof (cases "closers db ! c")
    case AtCancel
    have "close_inv (db\<lparr>ctx_done := True\<rparr>)"
      using assms(2) by (simp add: close_inv_def)
    then have "close_inv (db\<lparr>ctx_done := True\<rparr>\<lparr>closers := (closers (db\<lparr>ctx_done := True\<rparr>))[c := AtCloseChan]\<rparr>)"
      using c AtCancel by (intro close_inv_update_same) simp_all
    with assms(1) c AtCancel show ?thesis by (auto simp: close_step_def)
  next
    case AtCloseChan
    show ?thesis
    proof (cases "closed (jobs db)")
      case True
      with assms c AtCloseChan show ?thesis
        by (auto simp: close_step_def chan_close_def crash_def close_inv_def)
    next
      case False
      from close_inv_first [OF assms(2) c False] assms(1) c AtCloseChan False
      show ?thesis by (auto simp: close_step_def chan_close_def)
    qed
  next
    case AtWait
    have "close_inv (db\<lparr>closers := (closers db)[c := AtRelease]\<rparr>)"
      using assms(2) c AtWait by (simp add: close_inv_update_same)
    with assms(1) c AtWait show ?thesis by (auto simp: close_step_def split: if_splits)
  next
    case AtRelease
    have "close_inv (db\<lparr>closers := (closers db)[c := Returned]\<rparr>)"
      using assms(2) c AtRelease by (simp add: close_inv_update_same)
    then have "close_inv (observe Released (db\<lparr>released := released db + 1, closers := (closers db)[c := Returned]\<rparr>))"
      by (simp add: close_inv_def observe_def)
    with assms(1) c AtRelease show ?thesis by (auto simp: close_step_def)
  next
    case Returned
    with assms(1) c show ?thesis by (simp add: close_step_def)
  qed
qed

lemma step_close_inv:
  assumes "step e db = Some db'" "close_inv db" shows "close_inv db'"
proof -
  from assms(1) have live: "panicked db = None" by (rule step_live)
  consider "e = CallClose" | c where "e = CloseStep c" | "e \<noteq> CallClose" "\<forall>c. e \<noteq> CloseStep c"
    by blast
  then show ?thesis
  proof cases
    case 1
    with assms live show ?thesis by (auto simp: step_unfold close_inv_CallClose)
  next
    case 2
    with assms live show ?thesis by (auto simp: step_unfold close_inv_close_step)
  next
    case 3
    from step_frame [OF assms(1) 3] assms(2) show ?thesis by (auto intro: close_inv_frame)
  qed
qed

lemma run_close_inv: "run es db = Some db' \<Longrightarrow> close_inv db \<Longrightarrow> close_inv db'"
  by (induction es arbitrary: db) (auto split: option.splits dest: step_close_inv)

lemma close_inv_start: "close_inv (start w q)"
  by (simp add: close_inv_def start_def)

lemma run_append: "run (es @ es') db = (case run es db of None \<Rightarrow> None | Some db' \<Rightarrow> run es' db')"
  by (induction es arbitrary: db) (auto split: option.splits)

lemma close_step_Returned:
  assumes "close_step c' db = Some db'" "c < length (closers db)" "closers db ! c = Returned"
  shows "c < length (closers db') \<and> closers db' ! c = Returned"
proof -
  from assms have ne: "c' \<noteq> c" by (auto simp: close_step_def)
  with assms show ?thesis
    by (auto simp: close_step_def chan_close_def crash_def observe_def nth_list_update
        split: if_splits cpc.splits)
qed

lemma step_Returned:
  assumes "step e db = Some db'" "c < length (closers db)" "closers db ! c = Returned"
  shows "c < length (closers db') \<and> closers db' ! c = Returned"
proof -
  from assms(1) have live: "panicked db = None" by (rule step_live)
  consider "e = CallClose" | c' where "e = CloseStep c'" | "e \<noteq> CallClose" "\<forall>c. e \<noteq> CloseStep c"
    by blast
  then show ?thesis
  proof cases
    case 1
    with assms live show ?thesis by (auto simp: step_unfold nth_append)
  next
    case 2
    with assms live close_step_Returned show ?thesis by (auto simp: step_unfold)
  next
    case 3
    from step_frame [OF assms(1) 3] assms(2,3) show ?thesis by simp
  qed
qed

lemma run_Returned:
  "run es db = Some db' \<Longrightarrow> c < length (closers db) \<Longrightarrow> closers db ! c = Returned \<Longrightarrow>
     c < length (closers db') \<and> closers db' ! c = Returned"
proof (induction es arbitrary: db)
  case Nil
  then show ?case by simp
next
  case (Cons e es)
  from Cons.prems(1) obtain db1 where s: "step e db = Some db1" and r: "run es db1 = Some db'"
    by (auto split: option.splits)
  from step_Returned [OF s Cons.prems(2,3)] Cons.IH [OF r] show ?case by blast
qed

lemma Enqueue_closed: "closed (jobs db) \<Longrightarrow> Enqueue p db = SendPanics"
  by (simp add: Enqueue_def chan_send_def)

text \<open>
  Claim C2.  Once a call of \<open>Close\<close> has returned, in that state and in every later one, the
  channel is closed, so the send of \<open>Enqueue\<close> panics (send on closed channel): the call fails,
  and the job is not added to the queue.  When the process has already ended by a panic, no
  step is taken at all.
\<close>

theorem enqueue_after_close:
  assumes "run es (start w q) = Some db" "c < length (closers db)" "closers db ! c = Returned"
    and "run es' db = Some db'"
  shows "Enqueue p db' = SendPanics
       \<and> (panicked db' = None \<longrightarrow>
            step (Submit p) db' = Some (crash SendOnClosedChannel db')
            \<and> jobs (crash SendOnClosedChannel db') = jobs db')
       \<and> (panicked db' \<noteq> None \<longrightarrow> step (Submit p) db' = None)"
proof -
  from assms(1,4) have "run (es @ es') (start w q) = Some db'"
    by (simp add: run_append)
  then have inv: "close_inv db'"
    using close_inv_start by (rule run_close_inv)
  from run_Returned [OF assms(4,2,3)]
  have "c < length (closers db')" "closers db' ! c = Returned" by simp_all
  with inv have cl: "closed (jobs db')"
    by (auto dest: close_inv_closeD)
  then have e: "Enqueue p db' = SendPanics" by (rule Enqueue_closed)
  have a: "panicked db' = None \<longrightarrow>
            step (Submit p) db' = Some (crash SendOnClosedChannel db')
            \<and> jobs (crash SendOnClosedChannel db') = jobs db'"
    using e by (simp add: step_unfold crash_def)
  have b: "panicked db' \<noteq> None \<longrightarrow> step (Submit p) db' = None"
    by (simp add: step_def)
  from e a b show ?thesis by blast
qed

text \<open>After one complete \<open>Close\<close>, a further \<open>Enqueue\<close> panics and leaves the queue empty.\<close>

theorem enqueue_after_close_witness:
  "\<exists>db. run closed_once (start 1 1) = Some db
     \<and> closers db = [Returned] \<and> panicked db = None
     \<and> Enqueue (5::nat) db = SendPanics
     \<and> step (Submit 5) db = Some (crash SendOnClosedChannel db)
     \<and> buf (jobs (crash SendOnClosedChannel db)) = []"
proof -
  define db where "db = the (run closed_once (start 1 1))"
  have r: "run closed_once (start 1 1) = Some db"
    unfolding db_def by (simp only: closed_once_run option.sel)
  have f: "closers db = [Returned] \<and> panicked db = None \<and> buf (jobs db) = []"
    unfolding db_def by (simp only: closed_once_run option.sel) simp
  have r0: "run [] db = Some db" by simp
  have c: "0 < length (closers db)" "closers db ! 0 = Returned"
    using f by simp_all
  show ?thesis
    by (rule exI [where x = db]) (use enqueue_after_close [OF r c r0, of 5] r f in simp)
qed

section \<open>Resubmission on a full queue\<close>





text \<open>On a channel that \<open>Close\<close> has closed in the meantime, the same \<open>select\<close> takes the send
  case and panics.\<close>

lemma resend_on_closed_channel:
  assumes "i < length (workers db)" "workers db ! i = Resending j" "panicked db = None"
    and "closed (jobs db)"
  shows "step (Resend i) db = Some (crash SendOnClosedChannel db)"
  using assms by (simp add: step_unfold chan_try_send_def)

section \<open>Enqueue on a full queue\<close>

lemma two_accepted_run:
  "run two_accepted (start 1 2) = Some
     \<lparr>jobs = \<lparr>buf = [\<lparr>payload = 1, tries = 0\<rparr>, \<lparr>payload = 2, tries = 0\<rparr>], cap = 2, closed = False\<rparr>,
      ctx_done = False, wg = 1, workers = [Selecting], closers = [], released = 0,
      panicked = None, history = []\<rparr>"
  by (simp add: two_accepted_def step_defs start_def)

text \<open>
  Claim C9.  On an open channel whose buffer is at capacity, the send of \<open>Enqueue\<close> blocks: no
  step is taken, so nothing is returned, no panic arises and the job is not dropped.  As soon
  as a worker has received a job, the same \<open>Enqueue\<close> completes and the job is at the back of
  the queue.
\<close>

theorem enqueue_blocks_when_full:
  assumes "panicked db = None" "\<not> closed (jobs db)" "length (buf (jobs db)) = cap (jobs db)"
  shows "Enqueue p db = SendBlocks
       \<and> step (Submit p) db = None
       \<and> (\<forall>i db1. step (SelectRecv i) db = Some db1 \<longrightarrow>
            step (Submit p) db1 =
              Some (db1\<lparr>jobs := (jobs db1)\<lparr>buf := buf (jobs db1) @ [\<lparr>payload = p, tries = 0\<rparr>]\<rparr>\<rparr>))"
proof -
  have a: "Enqueue p db = SendBlocks"
    using assms by (simp add: Enqueue_def chan_send_def)
  have b: "step (Submit p) db = None"
    using assms a by (simp add: step_unfold)
  have c: "\<forall>i db1. step (SelectRecv i) db = Some db1 \<longrightarrow>
            step (Submit p) db1 =
              Some (db1\<lparr>jobs := (jobs db1)\<lparr>buf := buf (jobs db1) @ [\<lparr>payload = p, tries = 0\<rparr>]\<rparr>\<rparr>)"
  proof (intro allI impI)
    fix i db1
    assume s: "step (SelectRecv i) db = Some db1"
    then obtain x xs where x: "buf (jobs db) = x # xs"
      using assms by (cases "buf (jobs db)") (auto simp: step_unfold chan_recv_def split: if_splits)
    with s assms have d: "db1 = set_worker i (Executing x) (db\<lparr>jobs := (jobs db)\<lparr>buf := xs\<rparr>\<rparr>)"
      by (auto simp: step_unfold chan_recv_def split: if_splits)
    have "panicked db1 = None" "\<not> closed (jobs db1)" "length (buf (jobs db1)) < cap (jobs db1)"
      using assms x unfolding d by (simp_all add: set_worker_def)
    then show "step (Submit p) db1 =
              Some (db1\<lparr>jobs := (jobs db1)\<lparr>buf := buf (jobs db1) @ [\<lparr>payload = p, tries = 0\<rparr>]\<rparr>\<rparr>)"
      by (simp add: step_unfold Enqueue_def chan_send_def)
  qed
  from a b c show ?thesis by blast
qed

text \<open>Capacity 2 and one worker: two jobs are accepted at once, the third blocks, and after the
  worker has taken the first job the third is accepted.\<close>

theorem enqueue_blocks_when_full_witness:
  "\<exists>db db1 db2. run two_accepted (start 1 2) = Some db
     \<and> length (buf (jobs db)) = 2
     \<and> step (Submit 3) db = None
     \<and> step (SelectRecv 0) db = Some db1
     \<and> step (Submit 3) db1 = Some db2
     \<and> buf (jobs db2) = [\<lparr>payload = 2, tries = 0\<rparr>, \<lparr>payload = 3, tries = 0\<rparr>]
     \<and> workers db2 = [Executing \<lparr>payload = 1, tries = 0\<rparr>]"
proof -
  define db where "db = the (run two_accepted (start 1 2))"
  define db1 where "db1 = the (step (SelectRecv 0) db)"
  define db2 where "db2 = db1\<lparr>jobs := (jobs db1)\<lparr>buf := buf (jobs db1) @ [\<lparr>payload = 3::nat, tries = 0\<rparr>]\<rparr>\<rparr>"
  have r: "run two_accepted (start 1 2) = Some db"
    unfolding db_def by (simp only: two_accepted_run option.sel)
  have f: "panicked db = None" "\<not> closed (jobs db)" "length (buf (jobs db)) = cap (jobs db)"
    unfolding db_def by (simp_all only: two_accepted_run option.sel) simp_all
  have g: "length (buf (jobs db)) = 2"
    unfolding db_def by (simp only: two_accepted_run option.sel) simp
  have s: "step (SelectRecv 0) db = Some db1"
    unfolding db1_def db_def by (simp only: two_accepted_run option.sel) (simp add: step_defs)
  have v: "buf (jobs db2) = [\<lparr>payload = 2, tries = 0\<rparr>, \<lparr>payload = 3, tries = 0\<rparr>]
     \<and> workers db2 = [Executing \<lparr>payload = 1, tries = 0\<rparr>]"
    unfolding db2_def db1_def db_def
    by (simp only: two_accepted_run option.sel) (simp add: step_defs)
  from enqueue_blocks_when_full [OF f, of 3] s
  have "step (Submit 3) db = None" and "step (Submit 3) db1 = Some db2"
    unfolding db2_def by blast+
  with r g s v show ?thesis by blast
qed

section \<open>Close called twice\<close>

text \<open>A caller that reaches \<open>close(db.jobs)\<close> when the channel is closed already panics, so in
  no state have two calls of \<open>Close\<close> returned.\<close>

lemma close_again_panics:
  assumes "c < length (closers db)" "closers db ! c = AtCloseChan" "panicked db = None"
    and "closed (jobs db)"
  shows "step (CloseStep c) db = Some (crash CloseOfClosedChannel db)"
  using assms by (simp add: step_unfold close_step_def chan_close_def)

lemma close_returns_at_most_once:
  assumes "run es (start w q) = Some db"
    and "c < length (closers db)" "closers db ! c = Returned"
    and "c' < length (closers db)" "closers db ! c' = Returned"
  shows "c' = c"
proof -
  have "close_inv db"
    using assms(1) close_inv_start by (rule run_close_inv)
  with assms(2-) show ?thesis
    by (auto simp: close_inv_def)
qed

text \<open>
  Claim C1.  \<open>Close\<close> is not idempotent.  A second call after the first has returned panics at
  \<open>close(db.jobs)\<close> (close of closed channel): it returns nothing and the process ends, the
  backend having been released once by the first call.  Two callers inside \<open>Close\<close> at once fare
  no better: the second to reach \<open>close(db.jobs)\<close> panics, here before the backend is released
  at all.
\<close>

theorem close_twice_panics:
  "run close_twice (start 1 1) = Some
     \<lparr>jobs = \<lparr>buf = [], cap = 1, closed = True\<rparr>, ctx_done = True, wg = 0,
      workers = [Exited], closers = [Returned, AtCloseChan], released = 1,
      panicked = Some CloseOfClosedChannel, history = [Released]\<rparr>
   \<and> run close_concurrently (start 1 1) = Some
     \<lparr>jobs = \<lparr>buf = [], cap = 1, closed = True\<rparr>, ctx_done = True, wg = 1,
      workers = [Selecting], closers = [AtWait, AtCloseChan], released = 0,
      panicked = Some CloseOfClosedChannel, history = []\<rparr>"
  by (simp add: close_twice_def close_concurrently_def step_defs start_def)

section \<open>Close with a job still queued\<close>

text \<open>
  Claim C3.  \<open>Close\<close> does not wait for the queue to drain.  With one job enqueued and not yet
  received, \<open>Close\<close> cancels the context first; the worker may then take the \<open>ctx.Done\<close> case of
  its \<open>select\<close> and return; \<open>wg.Wait\<close> passes, the backend is released and \<open>Close\<close> returns, while
  the job is still in the channel and has never been executed.
\<close>

theorem close_abandons_queued_job:
  "run close_before_drain (start 1 1000) = Some
     \<lparr>jobs = \<lparr>buf = [\<lparr>payload = 7, tries = 0\<rparr>], cap = 1000, closed = True\<rparr>, ctx_done = True,
      wg = 0, workers = [Exited], closers = [Returned], released = 1, panicked = None,
      history = [Released]\<rparr>"
  by (simp add: close_before_drain_def step_defs start_def)

section \<open>A panic inside the execution of a job\<close>

text \<open>As claim C4 is stated, for every job, it fails: in a db pipeline the panic of a job's
  execution is not caught; the process ends with the job held by its worker, nothing is
  resubmitted, and no later step is taken.\<close>

theorem job_panic_counterexample:
  "run panicking_job (start 2 1000) = Some
     \<lparr>jobs = \<lparr>buf = [], cap = 1000, closed = False\<rparr>, ctx_done = False, wg = 2,
      workers = [Executing \<lparr>payload = 7, tries = 0\<rparr>, Selecting], closers = [], released = 0,
      panicked = Some JobPanic, history = [Ran \<lparr>payload = 7, tries = 0\<rparr> Faulted]\<rparr>
   \<and> run (panicking_job @ [Submit 8]) (start 2 1000) = None
   \<and> run (panicking_job @ [SelectRecv 1]) (start 2 1000) = None"
  by (simp add: panicking_job_def step_defs start_def numeral_2_eq_2)

section \<open>A panic inside a task started by SafeGo\<close>

lemmas SafeGo_defs = SafeGo_goroutine_def call_def recover_def SafeGo_deferred_def
  goroutine_exit_def

lemma plain_go_panic: "dead (plain_go (Panics v) s) = Some (Unrecovered v)"
  by (simp add: plain_go_def call_def goroutine_exit_def)

lemma panic_values_append: "panic_values (xs @ ys) = panic_values xs @ panic_values ys"
  by (induction xs rule: panic_values.induct) simp_all

lemma pool_step_live: "pool_step e s = Some s' \<Longrightarrow> dead s = None"
  by (simp add: pool_step_def split: if_splits)

text \<open>What one goroutine of \<open>SafeGo\<close> does to the process when the wait group, if given, has a
  counter above zero.\<close>

lemma SafeGo_goroutine_effect:
  assumes "has_wg \<longrightarrow> 0 < wait_count s"
  shows "SafeGo_goroutine fn has_wg s =
           s\<lparr>calls := calls s + 1,
              log_lines := log_lines s @ panic_values [fn],
              wait_count := (if has_wg then wait_count s - 1 else wait_count s)\<rparr>"
  using assms by (cases fn) (auto simp: SafeGo_defs Let_def)

lemma pool_step_Take:
  assumes "pool_step Take s = Some s'" "wg_ok s"
  shows "pool_inv s s'"
proof -
  from assms(1) have live: "dead s = None" by (rule pool_step_live)
  from assms(1) live obtain job rest where j: "jobChan s = job # rest"
    and s': "s' = SafeGo job False (s\<lparr>jobChan := rest\<rparr>)"
    by (auto simp: pool_step_def split: list.splits)
  show ?thesis
    using live assms(2) j unfolding s'
    by (simp add: pool_inv_def SafeGo_def wg_ok_def tasks_left_def)
qed

lemma pool_step_Finish:
  assumes "pool_step (Finish k) s = Some s'" "wg_ok s"
  shows "pool_inv s s'"
proof -
  from assms(1) have live: "dead s = None" by (rule pool_step_live)
  from assms(1) live have k: "k < length (pending s)"
    by (simp add: pool_step_def split: if_splits)
  obtain fn has_wg where g: "pending s ! k = (fn, has_wg)" by (cases "pending s ! k")
  define ys where "ys = take k (pending s)"
  define zs where "zs = drop (Suc k) (pending s)"
  have p: "pending s = ys @ (fn, has_wg) # zs"
    unfolding ys_def zs_def using id_take_nth_drop [OF k] g by simp
  define t where "t = s\<lparr>pending := ys @ zs\<rparr>"
  have w: "has_wg \<longrightarrow> 0 < wait_count t"
    using assms(2) p by (auto simp: wg_ok_def t_def)
  have s': "s' = SafeGo_goroutine fn has_wg t"
    using assms(1) live k g by (simp add: pool_step_def t_def ys_def zs_def)
  have e: "s' = t\<lparr>calls := calls t + 1,
              log_lines := log_lines t @ panic_values [fn],
              wait_count := (if has_wg then wait_count t - 1 else wait_count t)\<rparr>"
    unfolding s' using w by (rule SafeGo_goroutine_effect)
  show ?thesis
    using live assms(2) p w unfolding e
    by (cases fn) (auto simp: pool_inv_def wg_ok_def tasks_left_def t_def panic_values_append)
qed

lemma pool_step_inv:
  assumes "pool_step e s = Some s'" "wg_ok s"
  shows "pool_inv s s'"
  using assms by (cases e) (auto intro: pool_step_Take pool_step_Finish)

lemma pool_inv_refl: "dead s = None \<Longrightarrow> wg_ok s \<Longrightarrow> pool_inv s s"
  by (simp add: pool_inv_def)

lemma pool_inv_trans: "pool_inv s t \<Longrightarrow> pool_inv t u \<Longrightarrow> pool_inv s u"
  by (simp add: pool_inv_def)

lemma pool_run_inv:
  "pool_run es s = Some s' \<Longrightarrow> wg_ok s \<Longrightarrow> dead s = None \<Longrightarrow> pool_inv s s'"
proof (induction es arbitrary: s)
  case Nil
  then show ?case by (simp add: pool_inv_refl)
next
  case (Cons e es)
  from Cons.prems(1) obtain t where st: "pool_step e s = Some t" and r: "pool_run es t = Some s'"
    by (auto split: option.splits)
  from pool_step_inv [OF st Cons.prems(2)] have i: "pool_inv s t" .
  then have "wg_ok t" "dead t = None" by (simp_all add: pool_inv_def)
  from Cons.IH [OF r this] i show ?case by (blast intro: pool_inv_trans)
qed

lemma out_of_order_run:
  "pool_run out_of_order three_tasks = Some
     \<lparr>wait_count = 0, log_lines = [''bang'', ''boom''], calls = 3, dead = None, pending = [],
      jobChan = []\<rparr>"
  by (simp add: out_of_order_def three_tasks_def pool_step_def SafeGo_def SafeGo_defs Let_def)

text \<open>
  Claim C4, as amended.  From a state in which the process is alive and the wait group counts
  the goroutines that will call \<open>wg.Done()\<close>, whatever the tasks do and in whatever order the
  pool workers receive jobs and the goroutines of \<open>SafeGo\<close> run: the process never ends (every
  panic of a task is recovered), each task is called at most once and none is put back (the
  calls made and the tasks still to call add up to the same number), every value a task
  panics with is logged once, when its goroutine runs, and the loop of the workers and the
  goroutines still to run can always go on.
\<close>

theorem SafeGo_recovers:
  assumes "pool_run es s = Some s'" "wg_ok s" "dead s = None"
  shows "dead s' = None
       \<and> wg_ok s'
       \<and> calls s' + length (tasks_left s') = calls s + length (tasks_left s)
       \<and> mset (log_lines s') + mset (panic_values (tasks_left s'))
           = mset (log_lines s) + mset (panic_values (tasks_left s))
       \<and> (jobChan s' \<noteq> [] \<longrightarrow> pool_step Take s' \<noteq> None)
       \<and> (\<forall>k < length (pending s'). pool_step (Finish k) s' \<noteq> None)"
proof -
  from pool_run_inv [OF assms] have i: "pool_inv s s'" .
  then have d: "dead s' = None" by (simp add: pool_inv_def)
  have a: "jobChan s' \<noteq> [] \<longrightarrow> pool_step Take s' \<noteq> None"
    using d by (cases "jobChan s'") (simp_all add: pool_step_def)
  have b: "\<forall>k < length (pending s'). pool_step (Finish k) s' \<noteq> None"
    using d by (simp add: pool_step_def split: prod.splits)
  from i a b show ?thesis by (simp add: pool_inv_def)
qed

text \<open>Three tasks of a pool, two of which panic, their goroutines running in the opposite order
  of their start: the three are called, the process is alive, and the two values are logged in
  the order the goroutines ran.\<close>

theorem SafeGo_recovers_witness:
  "\<exists>s'. pool_run out_of_order three_tasks = Some s'
     \<and> dead s' = None \<and> calls s' = 3 \<and> tasks_left s' = []
     \<and> log_lines s' = [''bang'', ''boom'']
     \<and> mset (log_lines s') = mset (panic_values (jobChan three_tasks))"
proof -
  define s' where "s' = the (pool_run out_of_order three_tasks)"
  have r: "pool_run out_of_order three_tasks = Some s'"
    unfolding s'_def by (simp only: out_of_order_run option.sel)
  have f: "calls s' = 3 \<and> tasks_left s' = [] \<and> log_lines s' = [''bang'', ''boom'']"
    unfolding s'_def by (simp only: out_of_order_run option.sel) (simp add: tasks_left_def)
  have h: "wg_ok three_tasks" "dead three_tasks = None"
    by (simp_all add: wg_ok_def three_tasks_def)
  have t: "log_lines three_tasks = [] \<and> tasks_left three_tasks = jobChan three_tasks"
    by (simp add: three_tasks_def tasks_left_def)
  from SafeGo_recovers [OF r h] f t
  have "dead s' = None \<and> mset (log_lines s') = mset (panic_values (jobChan three_tasks))"
    by simp
  with r f show ?thesis by (intro exI [where x = s']) simp
qed


end
